theory Spec2Isabelle
  imports Main
begin

section \<open>The WebSocket JSON-RPC client of \<open>packages/client/src/clients/websocket.ts\<close>\<close>

text \<open>
  The class \<open>WebSocketClient\<close> is embedded as a record of its five fields together with
  one function per method and per transport hook. Everything the class touches outside
  its own fields is collected in a second record, the \<open>world\<close>: the request objects owned
  by the callers (a store indexed by reference, since \<open>notify\<close> and \<open>rpc\<close> write into the
  object they are handed), the counters that name the \<open>WebSocket\<close> and \<open>Promise\<close> objects
  created so far, and the ordered log of calls made to the collaborators
  (\<open>WebSocket\<close>, \<open>EventEmitter\<close>, the resolving functions of a \<open>Promise\<close>).

  JavaScript numbers are doubles. The only arithmetic of the class is \<open>messageId += 1\<close>
  starting from 0, so the field takes integer values only, and these are modelled by
  \<open>int\<close> with the rounding written out: the addition is exact on every value below
  \<open>2 ^ 53\<close>, and \<open>2 ^ 53 + 1\<close> rounds back to \<open>2 ^ 53\<close>, where the field stays. The other
  integers are the value of the field in no history of a new client.

  The collaborators are not part of the source. A call to one of them is logged and
  returns: \<open>new WebSocket(url)\<close> yields a socket, \<open>send\<close> and \<open>close\<close> accept the call,
  \<open>emit\<close> returns. The listeners that \<open>emit\<close> runs are code of the callers; every \<open>emit\<close>
  of the class is the last statement of its hook, so what a listener does is one more
  event after the hook. The reactions of a promise run after the hook that settles it.
\<close>

subsection \<open>Data\<close>

type_synonym number = int
type_synonym ref = nat
type_synonym sock = nat
type_synonym promise = nat

text \<open>Values of type \<open>any\<close> that arrive through \<open>JSON.parse\<close>.\<close>

datatype json =
    JNull
  | JBool bool
  | JNum number
  | JStr string
  | JArr "json list"
  | JObj "(string \<times> json) list"

text \<open>
  \<open>RpcRequest\<close> (lines 3-9). The optional fields are options. The fields \<open>jsonrpc\<close>,
  \<open>id\<close> and \<open>method\<close> carry the prefix \<open>req_\<close>: \<open>RpcResponse\<close> has fields named \<open>jsonrpc\<close>
  and \<open>id\<close> too, \<open>id\<close> is a constant of HOL and \<open>method\<close> is a command of Isabelle.
\<close>

record RpcRequest =
  req_jsonrpc :: "string option"
  req_id :: "number option"
  req_method :: string
  params :: "json option"

text \<open>\<open>RpcError\<close> (lines 19-24) and \<open>RpcResponse\<close> (lines 11-17).\<close>

record RpcError =
  code :: number
  message :: string
  data :: "json option"

record RpcResponse =
  jsonrpc :: string
  msg_id :: "number option"
  result :: "json option"
  error :: "RpcError option"

text \<open>
  \<open>PromiseCache\<close> (lines 26-29) is the pair of closures \<open>{resolve, reject}\<close> built in
  \<open>rpc\<close>; both close over the resolving functions of the one promise created by that
  call, so the pair is represented by the name of that promise.
\<close>

datatype PromiseCache = PromiseCache (of_promise: promise)

text \<open>
  The exceptions that the class can raise: \<open>new Error(message)\<close>, which stores the
  message and nothing else, and the \<open>TypeError\<close> of reading a property of \<open>undefined\<close>.
\<close>

datatype js_error = Error string | TypeError

datatype 'a completion = Returned 'a | Threw js_error

text \<open>
  Calls to the collaborators, in program order.
  \<^item> \<open>NewWebSocket s url\<close>: \<open>new WebSocket(url)\<close> created the socket named \<open>s\<close>;
  \<^item> \<open>WsClose s\<close>: \<open>close()\<close> on socket \<open>s\<close>;
  \<^item> \<open>WsSend s r\<close>: \<open>send(JSON.stringify(message))\<close> on socket \<open>s\<close>, where \<open>r\<close> holds the
    field values of \<open>message\<close> at the moment of the call;
  \<^item> \<open>Emit e args\<close>: \<open>this.emit(e, ...args)\<close>;
  \<^item> \<open>Resolve p v\<close> and \<open>Reject p e\<close>: the resolving functions \<open>_resolve(v)\<close> and
    \<open>reject(e)\<close> of promise \<open>p\<close>.
\<close>

datatype effect =
    NewWebSocket sock string
  | WsClose sock
  | WsSend sock RpcRequest
  | Emit "json option" "json option list"
  | Resolve promise "json option"
  | Reject promise js_error

record world =
  heap :: "ref \<Rightarrow> RpcRequest"
  sockets :: nat
  promises :: nat
  effects :: "effect list"

record WebSocketClient =
  messageId :: number
  messageRequests :: "number \<rightharpoonup> PromiseCache"
  websocket :: "sock option"
  connected :: bool
  queue :: "ref list"

subsection \<open>Operations\<close>

text \<open>The constructor (lines 42-48); the field \<open>websocket\<close> is left undefined.\<close>

definition constructor :: WebSocketClient where
  "constructor =
     \<lparr>messageId = 0, messageRequests = Map.empty, websocket = None,
      connected = False, queue = []\<rparr>"

text \<open>
  \<open>notify\<close> (lines 94-101); \<open>m\<close> is the reference of the argument \<open>message\<close>. The write
  to \<open>message.jsonrpc\<close> goes to the caller's object; the queue receives the reference
  itself. With no socket, \<open>this.websocket.send\<close> reads a property of \<open>undefined\<close>.
\<close>

definition notify ::
  "ref \<Rightarrow> WebSocketClient \<Rightarrow> world \<Rightarrow> unit completion \<times> WebSocketClient \<times> world" where
  "notify m c w =
     (let w1 = w\<lparr>heap := (heap w)(m := (heap w m)\<lparr>req_jsonrpc := Some ''2.0''\<rparr>)\<rparr>
      in if connected c = False
         then (Returned (), c\<lparr>queue := queue c @ [m]\<rparr>, w1)
         else (case websocket c of
                 None \<Rightarrow> (Threw TypeError, c, w1)
               | Some s \<Rightarrow>
                   (Returned (), c, w1\<lparr>effects := effects w1 @ [WsSend s (heap w1 m)]\<rparr>)))"

text \<open>
  \<open>this.messageId += 1\<close> (line 104) on the values the field takes, 0 to \<open>2 ^ 53\<close>: below
  \<open>2 ^ 53\<close> the sum is a double and the addition is exact; \<open>2 ^ 53 + 1\<close> lies halfway between
  the doubles \<open>2 ^ 53\<close> and \<open>2 ^ 53 + 2\<close> and rounds to the even one, \<open>2 ^ 53\<close>.
\<close>

definition saturation :: number where
  "saturation = 2 ^ 53"

definition increment :: "number \<Rightarrow> number" where
  "increment n = (if n < saturation then n + 1 else n)"

text \<open>
  \<open>rpc\<close> (lines 103-119). The executor of \<open>new Promise\<close> runs at once, so the entry is in
  the table before \<open>message.id\<close> is written and before \<open>notify\<close> runs. The promise is
  returned only when \<open>notify\<close> returns.
\<close>

definition rpc ::
  "ref \<Rightarrow> WebSocketClient \<Rightarrow> world \<Rightarrow> promise completion \<times> WebSocketClient \<times> world" where
  "rpc m c w =
     (let c1 = c\<lparr>messageId := increment (messageId c)\<rparr>;
          ident = messageId c1;
          p = promises w;
          w1 = w\<lparr>promises := p + 1\<rparr>;
          c2 = c1\<lparr>messageRequests := (messageRequests c1)(ident \<mapsto> PromiseCache p)\<rparr>;
          w2 = w1\<lparr>heap := (heap w1)(m := (heap w1 m)\<lparr>req_id := Some ident\<rparr>)\<rparr>
      in case notify m c2 w2 of
           (Returned u, c3, w3) \<Rightarrow> (Returned p, c3, w3)
         | (Threw e, c3, w3) \<Rightarrow> (Threw e, c3, w3))"

text \<open>The closure \<open>resolve\<close> of lines 107-112, for the promise \<open>p\<close> of its \<open>rpc\<close> call.\<close>

definition resolve :: "promise \<Rightarrow> RpcResponse \<Rightarrow> world \<Rightarrow> world" where
  "resolve p response w =
     (case error response of
        Some e \<Rightarrow> w\<lparr>effects := effects w @ [Reject p (Error (message e))]\<rparr>
      | None \<Rightarrow> w\<lparr>effects := effects w @ [Resolve p (result response)]\<rparr>)"

text \<open>JavaScript truthiness of an optional JSON value (\<open>if (msg.result)\<close>).\<close>

fun truthy :: "json option \<Rightarrow> bool" where
  "truthy None = False"
| "truthy (Some JNull) = False"
| "truthy (Some (JBool b)) = b"
| "truthy (Some (JNum n)) = (n \<noteq> 0)"
| "truthy (Some (JStr s)) = (s \<noteq> [])"
| "truthy (Some (JArr xs)) = True"
| "truthy (Some (JObj kvs)) = True"

text \<open>\<open>Array.isArray\<close> on a JSON value.\<close>

fun isArray :: "json \<Rightarrow> bool" where
  "isArray (JArr xs) = True"
| "isArray _ = False"

text \<open>\<open>xs[i]\<close> on a JavaScript array: \<open>undefined\<close> beyond the end.\<close>

fun element :: "json list \<Rightarrow> nat \<Rightarrow> json option" where
  "element [] i = None"
| "element (x # xs) 0 = Some x"
| "element (x # xs) (Suc i) = element xs i"

text \<open>
  The hook \<open>onmessage\<close> (lines 73-91), applied to the value \<open>msg\<close> of \<open>JSON.parse(e.data)\<close>,
  taken to be an object of the declared shape \<open>RpcResponse\<close> (an identifier that is not
  a number is never a key of the table and behaves as an absent one). The branches after
  the first test (lines 82-90), which the source calls the broadcast case, are the
  function \<open>broadcast\<close>; its case on \<open>JArr\<close> is the test \<open>Array.isArray(msg.result)\<close>, and
  the destructuring \<open>[event, payload]\<close> reads the elements 0 and 1. The hook is an
  \<open>async\<close> function: what it throws reaches nobody but the caller of the hook, as a
  rejected promise.
\<close>

definition broadcast ::
  "RpcResponse \<Rightarrow> WebSocketClient \<Rightarrow> world \<Rightarrow> unit completion \<times> WebSocketClient \<times> world" where
  "broadcast msg c w =
     (case error msg of
        Some e \<Rightarrow> (Threw (Error (message e)), c, w)
      | None \<Rightarrow>
          if truthy (result msg)
          then (case result msg of
                  Some (JArr xs) \<Rightarrow>
                    (Returned (), c,
                     w\<lparr>effects := effects w @ [Emit (element xs 0) [element xs 1]]\<rparr>)
                | _ \<Rightarrow> (Returned (), c, w))
          else (Returned (), c, w))"

definition onmessage ::
  "RpcResponse \<Rightarrow> WebSocketClient \<Rightarrow> world \<Rightarrow> unit completion \<times> WebSocketClient \<times> world" where
  "onmessage msg c w =
     (case msg_id msg of
        None \<Rightarrow> broadcast msg c w
      | Some n \<Rightarrow>
          if 0 < n
          then (case messageRequests c n of
                  Some (PromiseCache p) \<Rightarrow>
                    (Returned (),
                     c\<lparr>messageRequests := (messageRequests c)(n := None)\<rparr>,
                     resolve p msg w)
                | None \<Rightarrow> broadcast msg c w)
          else broadcast msg c w)"

text \<open>
  The loop of lines 60-63. It reads \<open>this.queue\<close> again on every turn, and \<open>notify\<close> puts
  the message back when \<open>connected\<close> is false, so as a function of an arbitrary state it
  need not return: \<open>None\<close> stands for a loop that runs forever. A throw inside \<open>notify\<close>
  leaves the loop.
\<close>

partial_function (option) drain ::
  "WebSocketClient \<Rightarrow> world \<Rightarrow> (unit completion \<times> WebSocketClient \<times> world) option" where
  "drain c w =
     (case queue c of
        [] \<Rightarrow> Some (Returned (), c, w)
      | m # rest \<Rightarrow>
          (case notify m (c\<lparr>queue := rest\<rparr>) w of
             (Returned u, c', w') \<Rightarrow> drain c' w'
           | (Threw e, c', w') \<Rightarrow> Some (Threw e, c', w')))"

text \<open>The hooks \<open>onopen\<close> (lines 55-66) and \<open>onclose\<close> (lines 68-71).\<close>

definition onopen ::
  "WebSocketClient \<Rightarrow> world \<Rightarrow> (unit completion \<times> WebSocketClient \<times> world) option" where
  "onopen c w =
     (case drain (c\<lparr>connected := True\<rparr>) w of
        None \<Rightarrow> None
      | Some (Returned u, c', w') \<Rightarrow>
          Some (Returned (), c', w'\<lparr>effects := effects w' @ [Emit (Some (JStr ''open'')) []]\<rparr>)
      | Some (Threw e, c', w') \<Rightarrow> Some (Threw e, c', w'))"

definition onclose ::
  "WebSocketClient \<Rightarrow> world \<Rightarrow> unit completion \<times> WebSocketClient \<times> world" where
  "onclose c w =
     (Returned (), c\<lparr>connected := False\<rparr>,
      w\<lparr>effects := effects w @ [Emit (Some (JStr ''close'')) []]\<rparr>)"

text \<open>
  \<open>connect\<close> (lines 50-92): close the socket at hand if there is one, create the next
  socket and keep it. The three assignments to \<open>onopen\<close>, \<open>onclose\<close> and \<open>onmessage\<close>
  install the hooks above on the new socket; they change no field.
\<close>

definition connect ::
  "string \<Rightarrow> WebSocketClient \<Rightarrow> world \<Rightarrow> unit completion \<times> WebSocketClient \<times> world" where
  "connect url c w =
     (let w1 = (case websocket c of
                  Some old \<Rightarrow> w\<lparr>effects := effects w @ [WsClose old]\<rparr>
                | None \<Rightarrow> w);
          s = sockets w1;
          w2 = w1\<lparr>sockets := s + 1, effects := effects w1 @ [NewWebSocket s url]\<rparr>
      in (Returned (), c\<lparr>websocket := Some s\<rparr>, w2))"

subsection \<open>Histories of a client\<close>

text \<open>
  What can happen to a client, one event at a time: a caller invokes \<open>connect\<close>, \<open>notify\<close>
  or \<open>rpc\<close>, a caller writes to a request object of its own, or the transport fires one
  of the three hooks. The hooks exist only on sockets made by \<open>connect\<close>, so before the
  first \<open>connect\<close> no transport event occurs and the state stays as it is. An exception
  leaves the state as it was when it was thrown.
\<close>

datatype op =
    Connect string
  | Notify ref
  | Rpc ref
  | Writes ref RpcRequest
  | Opened
  | Closed
  | Received RpcResponse

fun step :: "op \<Rightarrow> WebSocketClient \<times> world \<Rightarrow> (WebSocketClient \<times> world) option" where
  "step (Connect url) (c, w) = Some (snd (connect url c w))"
| "step (Notify m) (c, w) = Some (snd (notify m c w))"
| "step (Rpc m) (c, w) = Some (snd (rpc m c w))"
| "step (Writes m r) (c, w) = Some (c, w\<lparr>heap := (heap w)(m := r)\<rparr>)"
| "step Opened (c, w) =
     (if websocket c = None then Some (c, w) else map_option snd (onopen c w))"
| "step Closed (c, w) =
     (if websocket c = None then Some (c, w) else Some (snd (onclose c w)))"
| "step (Received msg) (c, w) =
     (if websocket c = None then Some (c, w) else Some (snd (onmessage msg c w)))"

fun run :: "op list \<Rightarrow> WebSocketClient \<times> world \<Rightarrow> (WebSocketClient \<times> world) option" where
  "run [] s = Some s"
| "run (x # xs) s = (case step x s of None \<Rightarrow> None | Some s' \<Rightarrow> run xs s')"

text \<open>A world in which nothing has happened yet, for concrete histories.\<close>

definition blank :: RpcRequest where
  "blank = \<lparr>req_jsonrpc = None, req_id = None, req_method = [], params = None\<rparr>"

definition world0 :: world where
  "world0 = \<lparr>heap = (\<lambda>_. blank), sockets = 0, promises = 0, effects = []\<rparr>"

text \<open>The write of \<open>notify\<close> to the caller's object, as a function on stores.\<close>

definition stamp :: "ref \<Rightarrow> (ref \<Rightarrow> RpcRequest) \<Rightarrow> (ref \<Rightarrow> RpcRequest)" where
  "stamp m h = h(m := (h m)\<lparr>req_jsonrpc := Some ''2.0''\<rparr>)"

text \<open>Whether an event is an inbound message that carries the identifier \<open>n\<close>.\<close>

definition answers :: "number \<Rightarrow> op \<Rightarrow> bool" where
  "answers n x = (case x of Received msg \<Rightarrow> msg_id msg = Some n | _ \<Rightarrow> False)"

text \<open>The calls to the resolving functions of promise \<open>p\<close>, and their number.\<close>

fun settles :: "promise \<Rightarrow> effect \<Rightarrow> bool" where
  "settles p (Resolve q v) = (q = p)"
| "settles p (Reject q e) = (q = p)"
| "settles p _ = False"

definition settled :: "promise \<Rightarrow> world \<Rightarrow> nat" where
  "settled p w = length (filter (settles p) (effects w))"

text \<open>
  The facts about a client that every history keeps: the keys of the table are
  identifiers already handed out, its promises and the promises settled so far have
  been created, a connected client has a socket and an empty queue.
\<close>

definition consistent :: "WebSocketClient \<times> world \<Rightarrow> bool" where
  "consistent s = (case s of (c, w) \<Rightarrow>
     (\<forall>n q. messageRequests c n = Some (PromiseCache q) \<longrightarrow>
        0 < n \<and> n \<le> messageId c \<and> q < promises w)
     \<and> (\<forall>e \<in> set (effects w). \<forall>q. settles q e \<longrightarrow> q < promises w)
     \<and> (connected c \<longrightarrow> queue c = [] \<and> websocket c \<noteq> None)
     \<and> 0 \<le> messageId c)"

text \<open>The reply of the example in the specification, \<open>{jsonrpc: "2.0", id: 1, result: "pong"}\<close>.\<close>

definition pong :: RpcResponse where
  "pong = \<lparr>jsonrpc = ''2.0'', msg_id = Some 1, result = Some (JStr ''pong''), error = None\<rparr>"

text \<open>The queue invariant: a connected client has nothing queued.\<close>

definition drained :: "WebSocketClient \<Rightarrow> bool" where
  "drained c = (connected c \<longrightarrow> queue c = [])"

text \<open>
  Inbound messages for the examples: a broadcast whose result is an array of three
  elements, the malformed broadcast and the error reply of the specification's
  examples, an error reply with the same message and another code and no data, and an
  error with no identifier.
\<close>

definition triple :: RpcResponse where
  "triple = \<lparr>jsonrpc = ''2.0'', msg_id = None,
              result = Some (JArr [JStr ''evt'', JNum 1, JNum 2]), error = None\<rparr>"

definition not_a_pair :: RpcResponse where
  "not_a_pair = \<lparr>jsonrpc = ''2.0'', msg_id = None,
              result = Some (JStr ''not-a-pair''), error = None\<rparr>"

definition boom :: RpcResponse where
  "boom = \<lparr>jsonrpc = ''2.0'', msg_id = Some 1, result = None,
            error = Some \<lparr>code = - 1, message = ''boom'', data = Some (JStr ''detail'')\<rparr>\<rparr>"

definition boom7 :: RpcResponse where
  "boom7 = \<lparr>jsonrpc = ''2.0'', msg_id = Some 1, result = None,
            error = Some \<lparr>code = 7, message = ''boom'', data = None\<rparr>\<rparr>"

definition stray :: RpcResponse where
  "stray = \<lparr>jsonrpc = ''2.0'', msg_id = None, result = None,
            error = Some \<lparr>code = - 1, message = ''boom'', data = None\<rparr>\<rparr>"

text \<open>
  For the histories in which the counter reaches \<open>2 ^ 53\<close>: the identifier found on the
  request object \<open>m\<close> in a state, the completion of a call \<open>rpc(m)\<close> made in a state, and a
  reply that carries the identifier \<open>2 ^ 53\<close>.
\<close>

definition assigned :: "ref \<Rightarrow> WebSocketClient \<times> world \<Rightarrow> number option" where
  "assigned m s = req_id (heap (snd s) m)"

definition rpc_returns :: "ref \<Rightarrow> WebSocketClient \<times> world \<Rightarrow> promise completion" where
  "rpc_returns m s = fst (rpc m (fst s) (snd s))"

definition late :: RpcResponse where
  "late = \<lparr>jsonrpc = ''2.0'', msg_id = Some saturation, result = Some (JStr ''pong''),
            error = None\<rparr>"

text \<open>A client that has issued one \<open>rpc\<close> call before any \<open>connect\<close>: entry 1 is pending.\<close>

definition awaiting :: "WebSocketClient \<times> world" where
  "awaiting = snd (rpc 0 constructor world0)"

section \<open>Properties\<close>

subsection \<open>The identifier counter\<close>

lemma increment_below: "n < saturation \<Longrightarrow> increment n = n + 1"
  by (simp add: increment_def)

lemma increment_saturated: "saturation \<le> n \<Longrightarrow> increment n = n"
  by (simp add: increment_def)

lemma increment_ge: "n \<le> increment n"
  by (simp add: increment_def)

lemma increment_pos: "0 \<le> n \<Longrightarrow> 0 < increment n"
  by (simp add: increment_def saturation_def)

lemma increment_above: "N \<le> n \<Longrightarrow> N < saturation \<Longrightarrow> N < increment n"
  by (simp add: increment_def)

subsection \<open>The send path and the drain loop\<close>

lemma notify_connected:
  "connected c \<Longrightarrow> websocket c = Some s \<Longrightarrow>
   notify m c w = (Returned (), c,
     w\<lparr>heap := stamp m (heap w),
       effects := effects w @ [WsSend s ((heap w m)\<lparr>req_jsonrpc := Some ''2.0''\<rparr>)]\<rparr>)"
  by (simp add: notify_def stamp_def Let_def)

lemma notify_disconnected:
  "\<not> connected c \<Longrightarrow>
   notify m c w = (Returned (), c\<lparr>queue := queue c @ [m]\<rparr>, w\<lparr>heap := stamp m (heap w)\<rparr>)"
  by (simp add: notify_def stamp_def Let_def)

lemma notify_no_socket:
  "connected c \<Longrightarrow> websocket c = None \<Longrightarrow>
   notify m c w = (Threw TypeError, c, w\<lparr>heap := stamp m (heap w)\<rparr>)"
  by (simp add: notify_def stamp_def Let_def)

lemma stamped_stamp:
  "(stamp m h k)\<lparr>req_jsonrpc := Some ''2.0''\<rparr> = (h k)\<lparr>req_jsonrpc := Some ''2.0''\<rparr>"
  by (simp add: stamp_def)

lemma stamped_fold:
  "(fold stamp ms h m)\<lparr>req_jsonrpc := Some ''2.0''\<rparr> = (h m)\<lparr>req_jsonrpc := Some ''2.0''\<rparr>"
  by (induction ms arbitrary: h) (simp_all add: stamped_stamp)

lemma drain_connected:
  "connected c \<Longrightarrow> websocket c = Some s \<Longrightarrow> queue c = q \<Longrightarrow>
   drain c w = Some (Returned (), c\<lparr>queue := []\<rparr>,
     w\<lparr>heap := fold stamp q (heap w),
       effects := effects w @ map (\<lambda>m. WsSend s ((heap w m)\<lparr>req_jsonrpc := Some ''2.0''\<rparr>)) q\<rparr>)"
proof (induction q arbitrary: c w)
  case Nil
  then show ?case by (subst drain.simps) simp
next
  case (Cons m rest)
  let ?c = "c\<lparr>queue := rest\<rparr>"
  let ?w = "w\<lparr>heap := stamp m (heap w),
       effects := effects w @ [WsSend s ((heap w m)\<lparr>req_jsonrpc := Some ''2.0''\<rparr>)]\<rparr>"
  have n: "notify m ?c w = (Returned (), ?c, ?w)"
    using Cons.prems by (simp add: notify_connected)
  have "drain c w = drain ?c ?w"
    using Cons.prems n by (subst drain.simps) simp
  also have "\<dots> = Some (Returned (), ?c\<lparr>queue := []\<rparr>,
     ?w\<lparr>heap := fold stamp rest (heap ?w),
       effects := effects ?w @ map (\<lambda>k. WsSend s ((heap ?w k)\<lparr>req_jsonrpc := Some ''2.0''\<rparr>)) rest\<rparr>)"
    using Cons.prems by (intro Cons.IH) simp_all
  finally show ?case
    by (simp add: stamped_stamp)
qed

lemma drain_no_socket:
  "connected c \<Longrightarrow> websocket c = None \<Longrightarrow>
   drain c w = Some (case queue c of
                       [] \<Rightarrow> (Returned (), c, w)
                     | m # rest \<Rightarrow>
                         (Threw TypeError, c\<lparr>queue := rest\<rparr>, w\<lparr>heap := stamp m (heap w)\<rparr>))"
  by (subst drain.simps) (simp add: notify_no_socket split: list.split)

lemma onopen_socket:
  "websocket c = Some s \<Longrightarrow>
   onopen c w = Some (Returned (), c\<lparr>connected := True, queue := []\<rparr>,
     w\<lparr>heap := fold stamp (queue c) (heap w),
       effects := effects w
         @ map (\<lambda>m. WsSend s ((heap w m)\<lparr>req_jsonrpc := Some ''2.0''\<rparr>)) (queue c)
         @ [Emit (Some (JStr ''open'')) []]\<rparr>)"
  by (simp add: onopen_def drain_connected [where s = s and q = "queue c"])

lemma onopen_total: "\<exists>r. onopen c w = Some r"
proof (cases "websocket c")
  case None
  then show ?thesis
    by (simp add: onopen_def drain_no_socket split: list.split)
next
  case (Some s)
  then show ?thesis by (simp add: onopen_socket)
qed

lemma step_total: "\<exists>s'. step x s = Some s'"
proof (cases s)
  case (Pair c w)
  then show ?thesis
    using onopen_total [of c w] by (cases x) auto
qed

lemma run_total: "\<exists>s'. run xs s = Some s'"
proof (induction xs arbitrary: s)
  case Nil
  then show ?case by simp
next
  case (Cons x xs)
  obtain s' where "step x s = Some s'" using step_total by blast
  then show ?case using Cons.IH [of s'] by simp
qed

lemma run_append:
  "run (xs @ ys) s = (case run xs s of None \<Rightarrow> None | Some s' \<Rightarrow> run ys s')"
  by (induction xs arbitrary: s) (simp_all split: option.split)

subsection \<open>What every history keeps\<close>

lemma consistent_constructor: "effects w = [] \<Longrightarrow> consistent (constructor, w)"
  by (simp add: consistent_def constructor_def)

lemma consistent_connect: "consistent (c, w) \<Longrightarrow> consistent (snd (connect url c w))"
  by (auto simp: consistent_def connect_def Let_def split: option.splits)

lemma consistent_notify: "consistent (c, w) \<Longrightarrow> consistent (snd (notify m c w))"
  by (auto simp: consistent_def notify_def Let_def split: option.splits)

lemma consistent_rpc: "consistent (c, w) \<Longrightarrow> consistent (snd (rpc m c w))"
  using increment_pos [of "messageId c"] increment_ge [of "messageId c"]
  by (fastforce simp: consistent_def rpc_def notify_def Let_def split: option.splits if_splits)

lemma consistent_onclose: "consistent (c, w) \<Longrightarrow> consistent (snd (onclose c w))"
  by (auto simp: consistent_def onclose_def)

lemma consistent_broadcast: "consistent (c, w) \<Longrightarrow> consistent (snd (broadcast msg c w))"
  by (auto simp: consistent_def broadcast_def split: option.splits json.splits)

lemma consistent_onmessage: "consistent (c, w) \<Longrightarrow> consistent (snd (onmessage msg c w))"
  unfolding onmessage_def
  by (auto simp: consistent_broadcast split: option.splits PromiseCache.splits)
     (auto simp: consistent_def resolve_def split: option.splits if_splits)

lemma consistent_onopen:
  "consistent (c, w) \<Longrightarrow> websocket c = Some s \<Longrightarrow> onopen c w = Some r \<Longrightarrow> consistent (snd r)"
  by (auto simp: onopen_socket consistent_def)

lemma consistent_step: "consistent s \<Longrightarrow> step x s = Some s' \<Longrightarrow> consistent s'"
proof (cases s)
  case (Pair c w)
  assume a: "consistent s" "step x s = Some s'"
  show ?thesis
  proof (cases x)
    case Opened
    then show ?thesis using a Pair consistent_onopen [of c w] by (auto split: if_splits)
  next
    case (Writes m r)
    then show ?thesis using a Pair by (auto simp: consistent_def)
  qed (use a Pair consistent_connect consistent_notify consistent_rpc consistent_onclose consistent_onmessage in \<open>auto split: if_splits\<close>)
qed

lemma consistent_run: "consistent s \<Longrightarrow> run xs s = Some s' \<Longrightarrow> consistent s'"
  by (induction xs arbitrary: s) (auto split: option.splits dest: consistent_step)

subsection \<open>The footprint of each operation\<close>

lemma settled_append: "settled p (w\<lparr>effects := effects w @ es\<rparr>) = settled p w + length (filter (settles p) es)"
  by (simp add: settled_def)

lemma settled_heap [simp]: "settled p (w\<lparr>heap := h\<rparr>) = settled p w"
  by (simp add: settled_def)

lemma settled_counters [simp]:
  "settled p (w\<lparr>sockets := a\<rparr>) = settled p w" "settled p (w\<lparr>promises := b\<rparr>) = settled p w"
  by (simp_all add: settled_def)

lemma connect_frame:
  "connect url c w = (k, c', w') \<Longrightarrow>
   messageRequests c' = messageRequests c \<and> messageId c' = messageId c
   \<and> promises w' = promises w \<and> settled p w' = settled p w"
  by (auto simp: connect_def Let_def settled_def split: option.splits)

lemma notify_frame:
  "notify m c w = (k, c', w') \<Longrightarrow>
   messageRequests c' = messageRequests c \<and> messageId c' = messageId c
   \<and> promises w' = promises w \<and> settled p w' = settled p w"
  by (auto simp: notify_def Let_def settled_def split: option.splits if_splits)

lemma rpc_frame:
  "rpc m c w = (k, c', w') \<Longrightarrow>
   messageRequests c' =
     (messageRequests c)(increment (messageId c) \<mapsto> PromiseCache (promises w))
   \<and> messageId c' = increment (messageId c)
   \<and> promises w' = promises w + 1 \<and> settled p w' = settled p w"
  unfolding rpc_def Let_def
  by (auto split: prod.splits completion.splits dest!: notify_frame [where p = p])

lemma onclose_frame:
  "onclose c w = (k, c', w') \<Longrightarrow>
   messageRequests c' = messageRequests c \<and> messageId c' = messageId c
   \<and> promises w' = promises w \<and> settled p w' = settled p w"
  by (auto simp: onclose_def settled_def)

lemma onopen_frame:
  "onopen c w = Some (k, c', w') \<Longrightarrow>
   messageRequests c' = messageRequests c \<and> messageId c' = messageId c
   \<and> promises w' = promises w \<and> settled p w' = settled p w"
proof (cases "websocket c")
  case None
  assume "onopen c w = Some (k, c', w')"
  with None show ?thesis
    by (auto simp: onopen_def drain_no_socket settled_def split: list.splits)
next
  case (Some s)
  assume "onopen c w = Some (k, c', w')"
  with Some show ?thesis
    by (auto simp: onopen_socket settled_def)
qed

lemma broadcast_frame:
  "broadcast msg c w = (k, c', w') \<Longrightarrow>
   c' = c \<and> promises w' = promises w \<and> settled p w' = settled p w"
  by (auto simp: broadcast_def settled_def split: option.splits json.splits if_splits)

lemma onmessage_matched:
  "msg_id msg = Some n \<Longrightarrow> 0 < n \<Longrightarrow> messageRequests c n = Some (PromiseCache q) \<Longrightarrow>
   onmessage msg c w =
     (Returned (), c\<lparr>messageRequests := (messageRequests c)(n := None)\<rparr>, resolve q msg w)"
  by (simp add: onmessage_def)

lemma onmessage_unmatched:
  "(\<And>n. msg_id msg = Some n \<Longrightarrow> messageRequests c n = None) \<Longrightarrow>
   onmessage msg c w = broadcast msg c w"
  by (auto simp: onmessage_def split: option.splits)

lemma resolve_frame:
  "promises (resolve q msg w) = promises w
   \<and> settled p (resolve q msg w) = settled p w + (if q = p then 1 else 0)"
  by (auto simp: resolve_def settled_def split: option.splits)

lemma onmessage_cases:
  obtains (matched) n q where "msg_id msg = Some n" "0 < n"
      "messageRequests c n = Some (PromiseCache q)"
      "onmessage msg c w =
         (Returned (), c\<lparr>messageRequests := (messageRequests c)(n := None)\<rparr>, resolve q msg w)"
  | (unmatched) "onmessage msg c w = broadcast msg c w"
proof (cases "msg_id msg")
  case None
  then have "onmessage msg c w = broadcast msg c w" by (simp add: onmessage_def)
  then show ?thesis by (rule unmatched)
next
  case (Some n)
  show ?thesis
  proof (cases "0 < n")
    case False
    with Some have "onmessage msg c w = broadcast msg c w" by (simp add: onmessage_def)
    then show ?thesis by (rule unmatched)
  next
    case True
    show ?thesis
    proof (cases "messageRequests c n")
      case None
      with Some have "onmessage msg c w = broadcast msg c w" by (simp add: onmessage_def)
      then show ?thesis by (rule unmatched)
    next
      case (Some pc)
      obtain q where "pc = PromiseCache q" by (cases pc)
      with Some \<open>msg_id msg = Some n\<close> True show ?thesis
        by (intro matched [of n q]) (simp_all add: onmessage_def)
    qed
  qed
qed

lemma onmessage_frame:
  assumes "onmessage msg c w = (k, c', w')"
  shows "messageId c' = messageId c \<and> promises w' = promises w
   \<and> ((c' = c \<and> settled p w' = settled p w)
      \<or> (\<exists>n q. msg_id msg = Some n \<and> messageRequests c n = Some (PromiseCache q)
            \<and> c' = c\<lparr>messageRequests := (messageRequests c)(n := None)\<rparr>
            \<and> settled p w' = settled p w + (if q = p then 1 else 0)))"
proof (cases rule: onmessage_cases [of msg c w])
  case (matched n q)
  with assms have "c' = c\<lparr>messageRequests := (messageRequests c)(n := None)\<rparr>"
    and "w' = resolve q msg w" by simp_all
  with matched(1,3) resolve_frame [of q msg w p] show ?thesis by simp
next
  case unmatched
  with assms have "broadcast msg c w = (k, c', w')" by simp
  from broadcast_frame [OF this, of p] show ?thesis by simp
qed

lemma step_rpc:
  assumes "step (Rpc m) (c, w) = Some (c', w')"
  shows "messageRequests c' =
         (messageRequests c)(increment (messageId c) \<mapsto> PromiseCache (promises w))
       \<and> messageId c' = increment (messageId c) \<and> promises w' = promises w + 1
       \<and> settled p w' = settled p w"
proof -
  obtain k where "rpc m c w = (k, c', w')"
    using assms by (cases "rpc m c w") simp
  then show ?thesis by (rule rpc_frame)
qed

lemma step_received:
  assumes "step (Received msg) (c, w) = Some (c', w')"
  obtains (same) "messageId c' = messageId c" "promises w' = promises w"
      "messageRequests c' = messageRequests c" "\<And>p. settled p w' = settled p w"
  | (del) n q where "messageId c' = messageId c" "promises w' = promises w"
      "msg_id msg = Some n" "messageRequests c n = Some (PromiseCache q)"
      "messageRequests c' = (messageRequests c)(n := None)"
      "\<And>p. settled p w' = settled p w + (if q = p then 1 else 0)"
proof (cases "websocket c")
  case None
  with assms have "c' = c" "w' = w" by simp_all
  then show ?thesis by (intro same) simp_all
next
  case (Some s)
  with assms have e: "snd (onmessage msg c w) = (c', w')" by simp
  show ?thesis
  proof (cases rule: onmessage_cases [of msg c w])
    case (matched n q)
    with e have "c' = c\<lparr>messageRequests := (messageRequests c)(n := None)\<rparr>"
      and "w' = resolve q msg w" by simp_all
    then show ?thesis
      using matched(1,3) resolve_frame [of q msg w]
      by (intro del [of n q]) simp_all
  next
    case unmatched
    with e obtain k where "broadcast msg c w = (k, c', w')"
      by (cases "broadcast msg c w") simp
    from broadcast_frame [OF this] show ?thesis
      by (intro same) simp_all
  qed
qed

lemma step_other:
  assumes "step x (c, w) = Some (c', w')" "\<And>m. x \<noteq> Rpc m" "\<And>msg. x \<noteq> Received msg"
  shows "messageRequests c' = messageRequests c \<and> messageId c' = messageId c
       \<and> promises w' = promises w \<and> settled p w' = settled p w"
proof (cases x)
  case (Connect url)
  then obtain k where "connect url c w = (k, c', w')"
    using assms(1) by (cases "connect url c w") simp
  then show ?thesis by (rule connect_frame)
next
  case (Notify m)
  then obtain k where "notify m c w = (k, c', w')"
    using assms(1) by (cases "notify m c w") simp
  then show ?thesis by (rule notify_frame)
next
  case (Rpc m)
  with assms(2) [of m] show ?thesis by simp
next
  case (Writes m r)
  with assms(1) show ?thesis by auto
next
  case Opened
  show ?thesis
  proof (cases "websocket c")
    case None
    with Opened assms(1) show ?thesis by simp
  next
    case (Some s)
    then obtain k where "onopen c w = Some (k, c', w')"
      using Opened assms(1) by (cases "onopen c w") auto
    then show ?thesis by (rule onopen_frame)
  qed
next
  case Closed
  show ?thesis
  proof (cases "websocket c")
    case None
    with Closed assms(1) show ?thesis by simp
  next
    case (Some s)
    then obtain k where "onclose c w = (k, c', w')"
      using Closed assms(1) by (cases "onclose c w") simp
    then show ?thesis by (rule onclose_frame)
  qed
next
  case (Received msg)
  with assms(3) [of msg] show ?thesis by simp
qed

lemma consistent_entry:
  assumes "consistent (c, w)" "messageRequests c n = Some (PromiseCache q)"
  shows "0 < n \<and> n \<le> messageId c \<and> q < promises w"
proof -
  from assms(1) have "\<forall>n q. messageRequests c n = Some (PromiseCache q) \<longrightarrow>
        0 < n \<and> n \<le> messageId c \<and> q < promises w"
    unfolding consistent_def prod.case by (rule conjunct1)
  with assms(2) show ?thesis by blast
qed

subsection \<open>Following one request through a history\<close>

lemma step_pending:
  assumes "consistent (c, w)" "messageRequests c N = Some (PromiseCache p)"
      "\<forall>n. messageRequests c n = Some (PromiseCache p) \<longrightarrow> n = N"
      "\<not> answers N x" "step x (c, w) = Some (c', w')" "N < saturation"
  shows "messageRequests c' N = Some (PromiseCache p)"
    and "\<forall>n. messageRequests c' n = Some (PromiseCache p) \<longrightarrow> n = N"
    and "settled p w' = settled p w"
proof -
  have b: "N \<le> messageId c" "p < promises w"
    using consistent_entry [OF assms(1,2)] by simp_all
  consider (rpc) m where "x = Rpc m" | (received) msg where "x = Received msg"
    | (other) "\<And>m. x \<noteq> Rpc m" "\<And>msg. x \<noteq> Received msg"
    by (cases x) auto
  then have "messageRequests c' N = Some (PromiseCache p)
       \<and> (\<forall>n. messageRequests c' n = Some (PromiseCache p) \<longrightarrow> n = N)
       \<and> settled p w' = settled p w"
  proof cases
    case (rpc m)
    from step_rpc [OF assms(5) [unfolded rpc], of p]
    have t: "messageRequests c' =
               (messageRequests c)(increment (messageId c) \<mapsto> PromiseCache (promises w))"
      and s: "settled p w' = settled p w" by simp_all
    have ne: "N \<noteq> increment (messageId c)"
      using increment_above [OF b(1) assms(6)] by simp
    have 1: "messageRequests c' N = Some (PromiseCache p)"
      using assms(2) ne by (simp add: t)
    have 2: "n = N" if a: "messageRequests c' n = Some (PromiseCache p)" for n
    proof (cases "n = increment (messageId c)")
      case True
      with a t have "promises w = p" by simp
      with b(2) show ?thesis by simp
    next
      case False
      with a t have "messageRequests c n = Some (PromiseCache p)" by simp
      with assms(3) show ?thesis by blast
    qed
    from 1 2 s show ?thesis by blast
  next
    case (received msg)
    have ne: "msg_id msg \<noteq> Some N"
      using assms(4) received by (simp add: answers_def)
    show ?thesis
    proof (rule step_received [OF assms(5) [unfolded received]])
      assume e: "messageRequests c' = messageRequests c"
        and s: "\<And>p. settled p w' = settled p w"
      have 1: "messageRequests c' N = Some (PromiseCache p)"
        using assms(2) by (simp only: e)
      have 2: "\<forall>n. messageRequests c' n = Some (PromiseCache p) \<longrightarrow> n = N"
        unfolding e by (rule assms(3))
      from 1 2 s [of p] show ?thesis by blast
    next
      fix n q
      assume del: "msg_id msg = Some n" "messageRequests c n = Some (PromiseCache q)"
        "messageRequests c' = (messageRequests c)(n := None)"
        "\<And>p. settled p w' = settled p w + (if q = p then 1 else 0)"
      have nN: "n \<noteq> N" using del(1) ne by auto
      have qp: "q \<noteq> p" using del(2) assms(3) nN by blast
      have 1: "messageRequests c' N = Some (PromiseCache p)"
        using assms(2) nN by (simp add: del(3))
      have 2: "k = N" if a: "messageRequests c' k = Some (PromiseCache p)" for k
      proof -
        from a del(3) have "messageRequests c k = Some (PromiseCache p)"
          by (cases "k = n") simp_all
        with assms(3) show ?thesis by blast
      qed
      have 3: "settled p w' = settled p w" using del(4) [of p] qp by simp
      from 1 2 3 show ?thesis by blast
    qed
  next
    case other
    from step_other [OF assms(5) other, of p]
    have e: "messageRequests c' = messageRequests c"
      and s: "settled p w' = settled p w" by simp_all
    have 1: "messageRequests c' N = Some (PromiseCache p)"
      using assms(2) by (simp only: e)
    have 2: "\<forall>n. messageRequests c' n = Some (PromiseCache p) \<longrightarrow> n = N"
      unfolding e by (rule assms(3))
    from 1 2 s show ?thesis by blast
  qed
  then show "messageRequests c' N = Some (PromiseCache p)"
    and "\<forall>n. messageRequests c' n = Some (PromiseCache p) \<longrightarrow> n = N"
    and "settled p w' = settled p w" by blast+
qed

lemma step_gone:
  assumes "\<forall>n. messageRequests c n \<noteq> Some (PromiseCache p)" "p < promises w"
      "messageRequests c N = None" "N \<le> messageId c" "step x (c, w) = Some (c', w')"
      "N < saturation"
  shows "(\<forall>n. messageRequests c' n \<noteq> Some (PromiseCache p)) \<and> p < promises w'
       \<and> messageRequests c' N = None \<and> N \<le> messageId c'
       \<and> settled p w' = settled p w"
proof -
  consider (rpc) m where "x = Rpc m" | (received) msg where "x = Received msg"
    | (other) "\<And>m. x \<noteq> Rpc m" "\<And>msg. x \<noteq> Received msg"
    by (cases x) auto
  then show ?thesis
  proof cases
    case (rpc m)
    from step_rpc [OF assms(5) [unfolded rpc], of p]
    have t: "messageRequests c' =
               (messageRequests c)(increment (messageId c) \<mapsto> PromiseCache (promises w))"
      and i: "messageId c' = increment (messageId c)" and r: "promises w' = promises w + 1"
      and s: "settled p w' = settled p w" by simp_all
    have ne: "N \<noteq> increment (messageId c)"
      using increment_above [OF assms(4,6)] by simp
    have 1: "messageRequests c' n \<noteq> Some (PromiseCache p)" for n
      using assms(1,2) by (cases "n = increment (messageId c)") (simp_all add: t)
    have 2: "messageRequests c' N = None"
      using assms(3) ne by (simp add: t)
    have 3: "N \<le> messageId c'"
      using assms(4) increment_ge [of "messageId c"] by (simp add: i)
    from 1 2 3 r s assms(2) show ?thesis by simp
  next
    case (received msg)
    show ?thesis
    proof (rule step_received [OF assms(5) [unfolded received]])
      assume "messageId c' = messageId c" "promises w' = promises w"
        "messageRequests c' = messageRequests c" "\<And>p. settled p w' = settled p w"
      with assms(1-4) show ?thesis by simp
    next
      fix n q
      assume del: "messageId c' = messageId c" "promises w' = promises w"
        "msg_id msg = Some n" "messageRequests c n = Some (PromiseCache q)"
        "messageRequests c' = (messageRequests c)(n := None)"
        "\<And>p. settled p w' = settled p w + (if q = p then 1 else 0)"
      have qp: "q \<noteq> p" using del(4) assms(1) by auto
      have 1: "messageRequests c' k \<noteq> Some (PromiseCache p)" for k
        using assms(1) by (cases "k = n") (simp_all add: del(5))
      have 2: "messageRequests c' N = None"
        using assms(3) by (simp add: del(5))
      from 1 2 del(1,2) del(6) [of p] qp assms(2,4) show ?thesis by simp
    qed
  next
    case other
    from step_other [OF assms(5) other, of p] assms(1-4) show ?thesis by simp
  qed
qed

lemma run_pending:
  assumes "run xs (c, w) = Some (c', w')" "consistent (c, w)"
      "messageRequests c N = Some (PromiseCache p)"
      "\<forall>n. messageRequests c n = Some (PromiseCache p) \<longrightarrow> n = N"
      "\<forall>x \<in> set xs. \<not> answers N x" "N < saturation"
  shows "messageRequests c' N = Some (PromiseCache p)
       \<and> (\<forall>n. messageRequests c' n = Some (PromiseCache p) \<longrightarrow> n = N)
       \<and> settled p w' = settled p w"
  using assms
proof (induction xs arbitrary: c w)
  case Nil
  from Nil.prems(1) have "c' = c" "w' = w" by simp_all
  with Nil.prems(3,4) show ?case by blast
next
  case (Cons x xs)
  from Cons.prems(1) obtain c1 w1 where
    s: "step x (c, w) = Some (c1, w1)" and r: "run xs (c1, w1) = Some (c', w')"
    by (auto split: option.splits)
  have nx: "\<not> answers N x" and nxs: "\<forall>x \<in> set xs. \<not> answers N x"
    using Cons.prems(5) by simp_all
  note p = step_pending [OF Cons.prems(2,3,4) nx s Cons.prems(6)]
  have w1: "consistent (c1, w1)" using consistent_step [OF Cons.prems(2) s] .
  from Cons.IH [OF r w1 p(1,2) nxs Cons.prems(6)]
  have i1: "messageRequests c' N = Some (PromiseCache p)"
    and i2: "\<forall>n. messageRequests c' n = Some (PromiseCache p) \<longrightarrow> n = N"
    and i3: "settled p w' = settled p w1" by blast+
  from i3 p(3) have "settled p w' = settled p w" by (rule trans)
  with i1 i2 show ?case by blast
qed

lemma run_gone:
  assumes "run xs (c, w) = Some (c', w')"
      "\<forall>n. messageRequests c n \<noteq> Some (PromiseCache p)" "p < promises w"
      "messageRequests c N = None" "N \<le> messageId c" "N < saturation"
  shows "messageRequests c' N = None \<and> settled p w' = settled p w"
proof -
  have "(\<forall>n. messageRequests c' n \<noteq> Some (PromiseCache p)) \<and> p < promises w'
       \<and> messageRequests c' N = None \<and> N \<le> messageId c'
       \<and> settled p w' = settled p w"
    using assms
  proof (induction xs arbitrary: c w)
    case Nil
    then show ?case by simp
  next
    case (Cons x xs)
    from Cons.prems(1) obtain c1 w1 where
      s: "step x (c, w) = Some (c1, w1)" and r: "run xs (c1, w1) = Some (c', w')"
      by (auto split: option.splits)
    note g = step_gone [OF Cons.prems(2,3,4,5) s Cons.prems(6)]
    with Cons.IH [OF r] Cons.prems(6) show ?case by simp
  qed
  then show ?thesis by simp
qed

lemma consistent_fresh:
  assumes "consistent (c, w)"
  shows "settled (promises w) w = 0"
proof -
  from assms have "\<forall>e \<in> set (effects w). \<forall>q. settles q e \<longrightarrow> q < promises w"
    unfolding consistent_def prod.case by blast
  then have "\<forall>e \<in> set (effects w). \<not> settles (promises w) e" by blast
  then have "filter (settles (promises w)) (effects w) = []"
    by (simp only: filter_empty_conv) 
  then show ?thesis by (simp add: settled_def)
qed

lemma run_ConsE:
  assumes "run (x # xs) s = Some s'"
  obtains c1 w1 where "step x s = Some (c1, w1)" "run xs (c1, w1) = Some s'"
proof (cases "step x s")
  case None
  with assms show ?thesis by simp
next
  case (Some a)
  obtain c1 w1 where "a = (c1, w1)" by (cases a)
  with Some assms that show ?thesis by simp
qed

lemma resolve_eq:
  "resolve p r w =
     w\<lparr>effects := effects w @
         [case error r of
            None \<Rightarrow> Resolve p (result r)
          | Some e \<Rightarrow> Reject p (Error (message e))]\<rparr>"
  by (simp add: resolve_def split: option.split)

subsection \<open>A client whose counter has reached \<open>2 ^ 53\<close>\<close>

lemma rpc_disconnected:
  "\<not> connected c \<Longrightarrow>
   rpc m c w =
     (Returned (promises w),
      c\<lparr>messageId := increment (messageId c),
        messageRequests :=
          (messageRequests c)(increment (messageId c) \<mapsto> PromiseCache (promises w)),
        queue := queue c @ [m]\<rparr>,
      w\<lparr>promises := promises w + 1,
        heap := (heap w)(m := (heap w m)\<lparr>req_id := Some (increment (messageId c)),
                                         req_jsonrpc := Some ''2.0''\<rparr>)\<rparr>)"
  by (simp add: rpc_def notify_def Let_def)

lemma rpc_many:
  assumes "int n \<le> saturation"
  shows "\<exists>c w. run (replicate n (Rpc m)) (constructor, world0) = Some (c, w)
           \<and> messageId c = int n \<and> promises w = n \<and> effects w = []
           \<and> \<not> connected c \<and> websocket c = None
           \<and> (0 < n \<longrightarrow> messageRequests c (int n) = Some (PromiseCache (n - 1))
                          \<and> req_id (heap w m) = Some (int n))"
  using assms
proof (induction n)
  case 0
  show ?case by (simp add: constructor_def world0_def)
next
  case (Suc n)
  then obtain c w where
    r: "run (replicate n (Rpc m)) (constructor, world0) = Some (c, w)"
    and i: "messageId c = int n" and p: "promises w = n" and e: "effects w = []"
    and d: "\<not> connected c" and k: "websocket c = None"
    by auto
  have inc: "increment (messageId c) = int (Suc n)"
    using Suc.prems i by (simp add: increment_below)
  have "replicate (Suc n) (Rpc m) = replicate n (Rpc m) @ [Rpc m]"
    by (simp add: replicate_append_same)
  then have "run (replicate (Suc n) (Rpc m)) (constructor, world0) = Some (snd (rpc m c w))"
    using r by (simp add: run_append)
  then show ?case
    using i p e d k inc by (simp add: rpc_disconnected)
qed

subsection \<open>Claims\<close>

text \<open>
  Claim C1, as stated, fails once the counter has reached \<open>2 ^ 53\<close>. On a new client the
  call number \<open>2 ^ 53\<close> of \<open>rpc\<close> returns the promise \<open>2 ^ 53 - 1\<close> and is assigned the
  identifier \<open>2 ^ 53\<close>; the next call returns the promise \<open>2 ^ 53\<close> and is assigned
  \<open>2 ^ 53\<close> again, so it takes over the entry. After \<open>connect\<close> and the open signal, the
  first reply with identifier \<open>2 ^ 53\<close> settles the promise of the second call; the
  promise of the first call is not settled.
\<close>

theorem first_reply_settles_other_call:
  "map_option (rpc_returns 0)
       (run (replicate (nat saturation - 1) (Rpc 0)) (constructor, world0))
     = Some (Returned (nat saturation - 1))
   \<and> map_option (assigned 0)
       (run (replicate (nat saturation) (Rpc 0)) (constructor, world0))
     = Some (Some saturation)
   \<and> map_option (rpc_returns 1)
       (run (replicate (nat saturation) (Rpc 0)) (constructor, world0))
     = Some (Returned (nat saturation))
   \<and> map_option (assigned 1)
       (run (replicate (nat saturation) (Rpc 0) @ [Rpc 1]) (constructor, world0))
     = Some (Some saturation)
   \<and> msg_id late = Some saturation
   \<and> map_option (settled (nat saturation - 1) \<circ> snd)
       (run (replicate (nat saturation) (Rpc 0)
              @ [Rpc 1, Connect ''ws://host'', Opened, Received late])
          (constructor, world0))
     = Some 0
   \<and> map_option (settled (nat saturation) \<circ> snd)
       (run (replicate (nat saturation) (Rpc 0)
              @ [Rpc 1, Connect ''ws://host'', Opened, Received late])
          (constructor, world0))
     = Some 1"
proof -
  let ?n = "nat saturation"
  have n: "int ?n = saturation" and pos: "0 < ?n" and pre: "int (?n - 1) \<le> saturation"
    and sp: "0 < saturation"
    by (simp_all add: saturation_def)
  from rpc_many [OF pre, of 0] obtain c' w' where
    r': "run (replicate (?n - 1) (Rpc 0)) (constructor, world0) = Some (c', w')"
    and p': "promises w' = ?n - 1" and d': "\<not> connected c'"
    by auto
  have 1: "map_option (rpc_returns 0)
       (run (replicate (?n - 1) (Rpc 0)) (constructor, world0)) = Some (Returned (?n - 1))"
    using r' p' d' by (simp add: rpc_returns_def rpc_disconnected)
  from rpc_many [of ?n 0] n pos obtain c w where
    r: "run (replicate ?n (Rpc 0)) (constructor, world0) = Some (c, w)"
    and i: "messageId c = saturation" and p: "promises w = ?n" and e: "effects w = []"
    and d: "\<not> connected c" and k: "websocket c = None"
    and a: "req_id (heap w 0) = Some saturation"
    by auto
  have inc: "increment (messageId c) = saturation"
    using i by (simp add: increment_saturated)
  have 2: "map_option (assigned 0) (run (replicate ?n (Rpc 0)) (constructor, world0))
      = Some (Some saturation)"
    using r a by (simp add: assigned_def)
  have 3: "map_option (rpc_returns 1) (run (replicate ?n (Rpc 0)) (constructor, world0))
      = Some (Returned ?n)"
    using r p d by (simp add: rpc_returns_def rpc_disconnected)
  let ?c1 = "c\<lparr>messageId := saturation,
               messageRequests := (messageRequests c)(saturation \<mapsto> PromiseCache ?n),
               queue := queue c @ [1]\<rparr>"
  let ?w1 = "w\<lparr>promises := ?n + 1,
               heap := (heap w)(1 := (heap w 1)\<lparr>req_id := Some saturation,
                                                req_jsonrpc := Some ''2.0''\<rparr>)\<rparr>"
  have s1: "step (Rpc 1) (c, w) = Some (?c1, ?w1)"
    using d inc p by (simp add: rpc_disconnected)
  have 4: "map_option (assigned 1)
       (run (replicate ?n (Rpc 0) @ [Rpc 1]) (constructor, world0)) = Some (Some saturation)"
    using r s1 by (simp add: run_append assigned_def)
  have 5: "msg_id late = Some saturation" by (simp add: late_def)
  obtain c2 w2 where s2: "step (Connect ''ws://host'') (?c1, ?w1) = Some (c2, w2)"
    by (cases "connect ''ws://host'' ?c1 ?w1") simp
  have k2: "websocket c2 = Some (sockets w)"
    using s2 k by (auto simp: connect_def Let_def)
  have "\<And>m. Connect ''ws://host'' \<noteq> Rpc m" "\<And>msg. Connect ''ws://host'' \<noteq> Received msg"
    by simp_all
  note f2 = step_other [OF s2 this]
  obtain c3 w3 where s3: "step Opened (c2, w2) = Some (c3, w3)"
    using step_total [of Opened "(c2, w2)"] by auto
  have k3: "websocket c3 = Some (sockets w)"
    using s3 k2 by (auto simp: onopen_socket)
  have "\<And>m. Opened \<noteq> Rpc m" "\<And>msg. Opened \<noteq> Received msg"
    by simp_all
  note f3 = step_other [OF s3 this]
  have t3: "messageRequests c3 saturation = Some (PromiseCache ?n)"
    using f2 [of 0] f3 [of 0] by simp
  have z3: "settled q w3 = 0" for q
    using f2 [of q] f3 [of q] e by (simp add: settled_def)
  have s4: "step (Received late) (c3, w3)
      = Some (c3\<lparr>messageRequests := (messageRequests c3)(saturation := None)\<rparr>,
              resolve ?n late w3)"
    using k3 onmessage_matched [OF 5 sp t3, of w3] by simp
  have whole: "run (replicate ?n (Rpc 0) @ [Rpc 1, Connect ''ws://host'', Opened, Received late])
          (constructor, world0)
      = Some (c3\<lparr>messageRequests := (messageRequests c3)(saturation := None)\<rparr>,
              resolve ?n late w3)"
    using r s1 s2 s3 s4 by (simp add: run_append del: step.simps)
  have ne: "?n \<noteq> ?n - 1" using pos by arith
  have 6: "map_option (settled (?n - 1) \<circ> snd)
       (run (replicate ?n (Rpc 0) @ [Rpc 1, Connect ''ws://host'', Opened, Received late])
          (constructor, world0)) = Some 0"
    unfolding whole using resolve_frame [of ?n late w3 "?n - 1"] z3 [of "?n - 1"] ne
    by simp
  have 7: "map_option (settled ?n \<circ> snd)
       (run (replicate ?n (Rpc 0) @ [Rpc 1, Connect ''ws://host'', Opened, Received late])
          (constructor, world0)) = Some 1"
    unfolding whole using resolve_frame [of ?n late w3 ?n] z3 [of ?n]
    by simp
  from 1 2 3 4 5 6 7 show ?thesis by blast
qed

text \<open>
  Claim C1, amended by the bound. Take any history of a client built in a world where
  nothing has been logged, and let \<open>rpc\<close> be called at its end, with the counter so far
  below \<open>2 ^ 53\<close> that the identifier \<open>N = messageId + 1\<close> the call gets is below \<open>2 ^ 53\<close>
  too; the call gets the promise named \<open>promises\<close>. Whatever happens next, as long
  as no inbound message carries \<open>N\<close>, the promise is not settled. The first inbound
  message with identifier \<open>N\<close> makes exactly one call to the resolving functions of that
  promise (\<open>_resolve\<close> with the result, or \<open>reject\<close> when the message has an error) and
  deletes the entry \<open>N\<close>. After any further history the entry is still absent, a later
  message with identifier \<open>N\<close> is handled by the broadcast branches, and the promise has
  been settled exactly once.
\<close>

theorem rpc_response_completes_once:
  assumes init: "effects w0 = []"
    and r0: "run ops0 (constructor, w0) = Some (c0, v0)"
    and r1: "run (Rpc m # ops1) (c0, v0) = Some (c2, w2)"
    and quiet: "\<forall>x \<in> set ops1. \<not> answers (messageId c0 + 1) x"
    and first: "msg_id r = Some (messageId c0 + 1)"
    and r2: "run ops2 (snd (onmessage r c2 w2)) = Some (c4, w4)"
    and again: "msg_id r' = Some (messageId c0 + 1)"
    and small: "messageId c0 + 1 < saturation"
  shows "settled (promises v0) w2 = 0
    \<and> onmessage r c2 w2 =
        (Returned (),
         c2\<lparr>messageRequests := (messageRequests c2)(messageId c0 + 1 := None)\<rparr>,
         w2\<lparr>effects := effects w2 @
              [case error r of
                 None \<Rightarrow> Resolve (promises v0) (result r)
               | Some e \<Rightarrow> Reject (promises v0) (Error (message e))]\<rparr>)
    \<and> messageRequests c4 (messageId c0 + 1) = None
    \<and> onmessage r' c4 w4 = broadcast r' c4 w4
    \<and> settled (promises v0) (snd (snd (onmessage r' c4 w4))) = 1"
proof -
  let ?N = "messageId c0 + 1" and ?p = "promises v0"
  have cs0: "consistent (c0, v0)"
    using consistent_run [OF consistent_constructor [OF init] r0] .
  have fresh: "settled ?p v0 = 0" using consistent_fresh [OF cs0] .
  from r1 obtain c1 w1 where
    s1: "step (Rpc m) (c0, v0) = Some (c1, w1)" and r1': "run ops1 (c1, w1) = Some (c2, w2)"
    by (rule run_ConsE)
  have inc: "increment (messageId c0) = ?N"
    using small by (simp add: increment_below)
  from step_rpc [OF s1, of ?p]
  have t1: "messageRequests c1 = (messageRequests c0)(?N \<mapsto> PromiseCache ?p)"
    and z1: "settled ?p w1 = settled ?p v0" by (simp_all add: inc)
  have cs1: "consistent (c1, w1)" using consistent_step [OF cs0 s1] .
  have e1: "messageRequests c1 ?N = Some (PromiseCache ?p)" by (simp add: t1)
  have u1: "\<forall>n. messageRequests c1 n = Some (PromiseCache ?p) \<longrightarrow> n = ?N"
  proof (intro allI impI)
    fix n assume a: "messageRequests c1 n = Some (PromiseCache ?p)"
    show "n = ?N"
    proof (rule ccontr)
      assume "n \<noteq> ?N"
      with a t1 have "messageRequests c0 n = Some (PromiseCache ?p)" by simp
      from consistent_entry [OF cs0 this] show False by simp
    qed
  qed
  note p2 = run_pending [OF r1' cs1 e1 u1 quiet small]
  have e2: "messageRequests c2 ?N = Some (PromiseCache ?p)"
    and u2: "\<forall>n. messageRequests c2 n = Some (PromiseCache ?p) \<longrightarrow> n = ?N"
    and z2: "settled ?p w2 = settled ?p w1" using p2 by blast+
  have cs2: "consistent (c2, w2)" using consistent_run [OF cs1 r1'] .
  note b2 = consistent_entry [OF cs2 e2]
  have pos: "0 < ?N" and le2: "?N \<le> messageId c2" and lt2: "?p < promises w2"
    using b2 by blast+
  have c1: "settled ?p w2 = 0" using z2 z1 fresh by simp
  let ?c3 = "c2\<lparr>messageRequests := (messageRequests c2)(?N := None)\<rparr>"
  let ?w3 = "resolve ?p r w2"
  have m: "onmessage r c2 w2 = (Returned (), ?c3, ?w3)"
    using onmessage_matched [OF first pos e2] .
  have g1: "\<forall>n. messageRequests ?c3 n \<noteq> Some (PromiseCache ?p)"
  proof
    fix n
    show "messageRequests ?c3 n \<noteq> Some (PromiseCache ?p)"
    proof (cases "n = ?N")
      case True
      then show ?thesis by simp
    next
      case False
      with u2 have "messageRequests c2 n \<noteq> Some (PromiseCache ?p)" by blast
      with False show ?thesis by simp
    qed
  qed
  have g2: "?p < promises ?w3" using lt2 resolve_frame [of ?p r w2 ?p] by simp
  have g3: "messageRequests ?c3 ?N = None" by simp
  have g4: "?N \<le> messageId ?c3" using le2 by simp
  have z3: "settled ?p ?w3 = 1" using c1 resolve_frame [of ?p r w2 ?p] by simp
  have r2': "run ops2 (?c3, ?w3) = Some (c4, w4)" using r2 m by simp
  note fin = run_gone [OF r2' g1 g2 g3 g4 small]
  have e4: "messageRequests c4 ?N = None" and z4: "settled ?p w4 = 1"
    using fin z3 by simp_all
  have un: "onmessage r' c4 w4 = broadcast r' c4 w4"
  proof (rule onmessage_unmatched)
    fix n assume "msg_id r' = Some n"
    with again have "n = ?N" by simp
    with e4 show "messageRequests c4 n = None" by simp
  qed
  obtain k c5 w5 where b: "broadcast r' c4 w4 = (k, c5, w5)"
    by (cases "broadcast r' c4 w4") auto
  have z5: "settled ?p (snd (snd (onmessage r' c4 w4))) = 1"
    using broadcast_frame [OF b, of ?p] un b z4 by simp
  have m': "onmessage r c2 w2 =
        (Returned (), ?c3,
         w2\<lparr>effects := effects w2 @
              [case error r of
                 None \<Rightarrow> Resolve ?p (result r)
               | Some e \<Rightarrow> Reject ?p (Error (message e))]\<rparr>)"
    using m by (simp only: resolve_eq)
  from c1 m' e4 un z5 show ?thesis by blast
qed

theorem rpc_response_completes_once_witness:
  "\<exists>c2 w2.
     run [Rpc 0, Connect ''ws://host'', Opened] (constructor, world0) = Some (c2, w2)
     \<and> messageId constructor + 1 < saturation
     \<and> settled 0 w2 = 0
     \<and> onmessage pong c2 w2 =
         (Returned (), c2\<lparr>messageRequests := (messageRequests c2)(1 := None)\<rparr>,
          w2\<lparr>effects := effects w2 @ [Resolve 0 (Some (JStr ''pong''))]\<rparr>)
     \<and> settled 0 (snd (snd (onmessage pong (fst (snd (onmessage pong c2 w2)))
                                (snd (snd (onmessage pong c2 w2)))))) = 1"
proof -
  obtain c2 w2 where
    r1: "run [Rpc 0, Connect ''ws://host'', Opened] (constructor, world0) = Some (c2, w2)"
    using run_total [of "[Rpc 0, Connect ''ws://host'', Opened]" "(constructor, world0)"]
    by auto
  have init: "effects world0 = []" by (simp add: world0_def)
  have r0: "run [] (constructor, world0) = Some (constructor, world0)" by simp
  have quiet: "\<forall>x \<in> set [Connect ''ws://host'', Opened].
                 \<not> answers (messageId constructor + 1) x"
    by (simp add: answers_def)
  have first: "msg_id pong = Some (messageId constructor + 1)"
    by (simp add: pong_def constructor_def)
  have r2: "run [] (snd (onmessage pong c2 w2))
              = Some (fst (snd (onmessage pong c2 w2)), snd (snd (onmessage pong c2 w2)))"
    by simp
  have small: "messageId constructor + 1 < saturation"
    by (simp add: constructor_def saturation_def)
  note T = rpc_response_completes_once [OF init r0 r1 quiet first r2 first small]
  have n: "messageId constructor + 1 = 1" and p: "promises world0 = 0"
    by (simp_all add: constructor_def world0_def)
  have a: "settled 0 w2 = 0"
    using T [THEN conjunct1] unfolding p .
  have b: "onmessage pong c2 w2 =
         (Returned (), c2\<lparr>messageRequests := (messageRequests c2)(1 := None)\<rparr>,
          w2\<lparr>effects := effects w2 @ [Resolve 0 (Some (JStr ''pong''))]\<rparr>)"
    using conjunct1 [OF conjunct2 [OF T]] by (simp add: n p pong_def)
  have c: "settled 0 (snd (snd (onmessage pong (fst (snd (onmessage pong c2 w2)))
                                (snd (snd (onmessage pong c2 w2)))))) = 1"
    using T [THEN conjunct2, THEN conjunct2, THEN conjunct2, THEN conjunct2]
    unfolding p .
  from r1 small a b c show ?thesis by blast
qed

lemma run_notify_disconnected:
  "\<not> connected c \<Longrightarrow>
   run (map Notify ms) (c, w) =
     Some (c\<lparr>queue := queue c @ ms\<rparr>, w\<lparr>heap := fold stamp ms (heap w)\<rparr>)"
proof (induction ms arbitrary: c w)
  case Nil
  then show ?case by simp
next
  case (Cons m ms)
  let ?c = "c\<lparr>queue := queue c @ [m]\<rparr>" and ?w = "w\<lparr>heap := stamp m (heap w)\<rparr>"
  have "run (map Notify (m # ms)) (c, w) = run (map Notify ms) (?c, ?w)"
    using Cons.prems by (simp add: notify_disconnected)
  also have "\<dots> = Some (?c\<lparr>queue := queue ?c @ ms\<rparr>, ?w\<lparr>heap := fold stamp ms (heap ?w)\<rparr>)"
    using Cons.prems by (intro Cons.IH) simp
  finally show ?case by simp
qed

text \<open>
  Claim C2. Let a client that is not connected and has a socket receive the calls
  \<open>notify(m)\<close> for the references \<open>ms\<close>, in this order. The calls transmit nothing and
  leave the queue extended by \<open>ms\<close>. When the socket then signals open, the hook returns,
  and what it adds to the log is one \<open>send\<close> for each queued reference, in the order of
  the queue and so of the calls, followed by the signal \<open>open\<close>; the \<open>send\<close> of any
  \<open>notify\<close> made afterwards comes after both.
\<close>

theorem queued_notifications_sent_in_order:
  assumes "connected c = False" and "websocket c = Some s"
    and "run (map Notify ms) (c, w) = Some (c1, w1)"
  shows "queue c1 = queue c @ ms \<and> effects w1 = effects w
    \<and> (let c2 = c1\<lparr>connected := True, queue := []\<rparr>;
            w2 = w1\<lparr>heap := fold stamp (queue c @ ms) (heap w1),
                    effects := effects w
                      @ map (\<lambda>m. WsSend s ((heap w1 m)\<lparr>req_jsonrpc := Some ''2.0''\<rparr>))
                          (queue c @ ms)
                      @ [Emit (Some (JStr ''open'')) []]\<rparr>
        in onopen c1 w1 = Some (Returned (), c2, w2)
           \<and> effects (snd (snd (notify m' c2 w2)))
               = effects w2 @ [WsSend s ((heap w2 m')\<lparr>req_jsonrpc := Some ''2.0''\<rparr>)])"
proof -
  have e: "c1 = c\<lparr>queue := queue c @ ms\<rparr>" "w1 = w\<lparr>heap := fold stamp ms (heap w)\<rparr>"
    using assms(1,3) by (simp_all add: run_notify_disconnected)
  have s1: "websocket c1 = Some s" using assms(2) e by simp
  have q1: "queue c1 = queue c @ ms" and e1: "effects w1 = effects w"
    using e by simp_all
  let ?c2 = "c1\<lparr>connected := True, queue := []\<rparr>"
  let ?w2 = "w1\<lparr>heap := fold stamp (queue c @ ms) (heap w1),
                    effects := effects w
                      @ map (\<lambda>m. WsSend s ((heap w1 m)\<lparr>req_jsonrpc := Some ''2.0''\<rparr>))
                          (queue c @ ms)
                      @ [Emit (Some (JStr ''open'')) []]\<rparr>"
  have o: "onopen c1 w1 = Some (Returned (), ?c2, ?w2)"
    by (simp add: onopen_socket [OF s1] q1 e1)
  have "connected ?c2" and "websocket ?c2 = Some s" using s1 by simp_all
  from notify_connected [OF this, of m' ?w2]
  have n: "effects (snd (snd (notify m' ?c2 ?w2)))
      = effects ?w2 @ [WsSend s ((heap ?w2 m')\<lparr>req_jsonrpc := Some ''2.0''\<rparr>)]"
    by simp
  from q1 e1 o n show ?thesis by (simp only: Let_def)
qed

theorem queued_notifications_sent_in_order_witness:
  "\<exists>c w c1 w1.
     connect ''ws://host'' constructor world0 = (Returned (), c, w)
     \<and> connected c = False \<and> websocket c = Some 0
     \<and> run (map Notify [3, 5]) (c, w) = Some (c1, w1)
     \<and> queue c1 = [3, 5]
     \<and> map_option (effects \<circ> snd \<circ> snd) (onopen c1 w1)
         = Some [NewWebSocket 0 ''ws://host'',
                 WsSend 0 (blank\<lparr>req_jsonrpc := Some ''2.0''\<rparr>),
                 WsSend 0 (blank\<lparr>req_jsonrpc := Some ''2.0''\<rparr>),
                 Emit (Some (JStr ''open'')) []]"
proof -
  obtain c w where cw: "connect ''ws://host'' constructor world0 = (Returned (), c, w)"
    by (simp add: connect_def Let_def)
  have a: "connected c = False" and b: "websocket c = Some 0"
    and ew: "effects w = [NewWebSocket 0 ''ws://host'']" and q: "queue c = []"
    using cw by (auto simp: connect_def Let_def constructor_def world0_def)
  obtain c1 w1 where r: "run (map Notify [3, 5]) (c, w) = Some (c1, w1)"
    using run_total [of "map Notify [3, 5]" "(c, w)"] by auto
  have h: "heap w1 3 = blank\<lparr>req_jsonrpc := Some ''2.0''\<rparr>"
      "heap w1 5 = blank\<lparr>req_jsonrpc := Some ''2.0''\<rparr>"
    using r cw by (auto simp: notify_def Let_def connect_def constructor_def world0_def)
  note T = queued_notifications_sent_in_order [OF a b r]
  from T [unfolded Let_def] have "queue c1 = [3, 5]" by (simp add: q)
  moreover from T [unfolded Let_def, of 0]
  have "map_option (effects \<circ> snd \<circ> snd) (onopen c1 w1)
         = Some [NewWebSocket 0 ''ws://host'',
                 WsSend 0 (blank\<lparr>req_jsonrpc := Some ''2.0''\<rparr>),
                 WsSend 0 (blank\<lparr>req_jsonrpc := Some ''2.0''\<rparr>),
                 Emit (Some (JStr ''open'')) []]"
    by (simp add: q ew h)
  ultimately show ?thesis using cw a b r by blast
qed

text \<open>
  Claim C3, as stated, fails: a message with no identifier and no error whose result is
  an array of three elements is not a two-element pair, and the hook raises the signal
  named by the first element with the second as its argument.
\<close>

theorem three_element_result_raises_signal:
  "msg_id triple = None \<and> error triple = None
   \<and> result triple = Some (JArr [JStr ''evt'', JNum 1, JNum 2])
   \<and> length [JStr ''evt'', JNum 1, JNum 2] = 3
   \<and> onmessage triple constructor world0
       = (Returned (), constructor,
          world0\<lparr>effects := [Emit (Some (JStr ''evt'')) [Some (JNum 1)]]\<rparr>)"
  by (simp add: triple_def onmessage_def broadcast_def world0_def)

text \<open>
  Claim C3, amended to the test the hook makes (\<open>Array.isArray\<close>): for every inbound
  message with no identifier matching a pending entry and no error object, if its result
  is present but is not an array, the hook raises no signal, throws nothing and changes
  nothing.
\<close>

theorem non_array_result_ignored:
  assumes "\<And>n. msg_id msg = Some n \<Longrightarrow> messageRequests c n = None"
    and "error msg = None"
    and "result msg = Some v" and "\<not> isArray v"
  shows "onmessage msg c w = (Returned (), c, w)"
proof -
  have "onmessage msg c w = broadcast msg c w"
    using assms(1) by (rule onmessage_unmatched)
  also have "\<dots> = (Returned (), c, w)"
    using assms(2,3,4) by (cases v) (simp_all add: broadcast_def)
  finally show ?thesis .
qed

theorem non_array_result_ignored_witness:
  "error not_a_pair = None \<and> result not_a_pair = Some (JStr ''not-a-pair'')
   \<and> \<not> isArray (JStr ''not-a-pair'')
   \<and> onmessage not_a_pair (fst awaiting) (snd awaiting)
       = (Returned (), fst awaiting, snd awaiting)"
proof -
  have 1: "\<And>n. msg_id not_a_pair = Some n \<Longrightarrow> messageRequests (fst awaiting) n = None"
    by (simp add: not_a_pair_def)
  have 2: "error not_a_pair = None" and 3: "result not_a_pair = Some (JStr ''not-a-pair'')"
    by (simp_all add: not_a_pair_def)
  have 4: "\<not> isArray (JStr ''not-a-pair'')" by simp
  from non_array_result_ignored [of not_a_pair "fst awaiting", OF 1 2 3 4, of "snd awaiting"]
    2 3 4 show ?thesis by simp
qed

text \<open>
  Claim C4, as stated, fails: the error handed to \<open>reject\<close> is \<open>new Error(message)\<close>. Two
  replies to the pending call 1 whose error objects have the same message and differ in
  code and data reject the promise with the same error, which has neither.
\<close>

theorem rejection_carries_message_only:
  "messageRequests (fst awaiting) 1 = Some (PromiseCache 0)
   \<and> error boom = Some \<lparr>code = - 1, message = ''boom'', data = Some (JStr ''detail'')\<rparr>
   \<and> error boom7 = Some \<lparr>code = 7, message = ''boom'', data = None\<rparr>
   \<and> effects (snd (snd (onmessage boom (fst awaiting) (snd awaiting))))
       = [Reject 0 (Error ''boom'')]
   \<and> effects (snd (snd (onmessage boom7 (fst awaiting) (snd awaiting))))
       = [Reject 0 (Error ''boom'')]"
  by (simp add: awaiting_def rpc_def increment_def saturation_def notify_def Let_def
        constructor_def world0_def
        boom_def boom7_def onmessage_def resolve_def)

text \<open>
  Claim C4, amended: for every inbound response that carries an error object and an
  identifier matching a pending call, the promise of that call is rejected with an error
  that carries the message of the error object (and nothing else of it), the entry of
  that call is deleted, and every other entry of the table is as before.
\<close>

theorem correlated_error_rejects_call:
  assumes "msg_id msg = Some n" and "0 < n"
    and "messageRequests c n = Some (PromiseCache p)"
    and "error msg = Some e"
  shows "onmessage msg c w =
           (Returned (),
            c\<lparr>messageRequests := (messageRequests c)(n := None)\<rparr>,
            w\<lparr>effects := effects w @ [Reject p (Error (message e))]\<rparr>)
       \<and> (\<forall>k. k \<noteq> n \<longrightarrow>
             messageRequests (fst (snd (onmessage msg c w))) k = messageRequests c k)"
  using assms by (simp add: onmessage_matched resolve_eq)

theorem correlated_error_rejects_call_witness:
  "msg_id boom = Some 1 \<and> messageRequests (fst awaiting) 1 = Some (PromiseCache 0)
   \<and> onmessage boom (fst awaiting) (snd awaiting) =
       (Returned (),
        (fst awaiting)\<lparr>messageRequests := (messageRequests (fst awaiting))(1 := None)\<rparr>,
        (snd awaiting)\<lparr>effects := effects (snd awaiting) @ [Reject 0 (Error ''boom'')]\<rparr>)"
proof -
  have 1: "msg_id boom = Some 1" by (simp add: boom_def)
  have 2: "(0::int) < 1" by simp
  have 3: "messageRequests (fst awaiting) 1 = Some (PromiseCache 0)"
    by (simp add: awaiting_def rpc_def increment_def saturation_def notify_def Let_def
          constructor_def world0_def)
  have 4: "error boom = Some \<lparr>code = - 1, message = ''boom'', data = Some (JStr ''detail'')\<rparr>"
    by (simp add: boom_def)
  from correlated_error_rejects_call [OF 1 2 3 4, of "snd awaiting"] 1 3
  show ?thesis by simp
qed

text \<open>
  Claim C5, as stated, fails: \<open>connect\<close> does not assign \<open>connected\<close>. After a first
  session has opened, a second \<open>connect\<close> returns with \<open>connected\<close> still true.
\<close>

theorem reconnect_keeps_connected:
  "map_option (connected \<circ> fst)
     (run [Connect ''ws://a'', Opened, Connect ''ws://b''] (constructor, world0)) = Some True"
  by (simp add: connect_def onopen_socket constructor_def world0_def Let_def)

text \<open>
  Claim C5, amended: \<open>connect\<close> calls \<open>close\<close> on the socket at hand, if there is one,
  before it creates the new socket, and keeps the new socket in place of the old one; it
  leaves \<open>connected\<close> as it was.
\<close>

theorem connect_replaces_session:
  "connect url c w =
     (Returned (), c\<lparr>websocket := Some (sockets w)\<rparr>,
      w\<lparr>sockets := sockets w + 1,
        effects := effects w
          @ (case websocket c of None \<Rightarrow> [] | Some old \<Rightarrow> [WsClose old])
          @ [NewWebSocket (sockets w) url]\<rparr>)
   \<and> connected (fst (snd (connect url c w))) = connected c"
  by (simp add: connect_def Let_def split: option.split)

text \<open>
  Claim C6. For every inbound message that carries an error object and whose identifier,
  if it has one, matches no pending entry, the hook throws \<open>new Error\<close> of the error's
  message; no promise is settled and no entry is removed, the client and the log are as
  before.
\<close>

theorem uncorrelated_error_throws:
  assumes "error msg = Some e"
    and "\<And>n. msg_id msg = Some n \<Longrightarrow> messageRequests c n = None"
  shows "onmessage msg c w = (Threw (Error (message e)), c, w)"
proof -
  have "onmessage msg c w = broadcast msg c w"
    using assms(2) by (rule onmessage_unmatched)
  then show ?thesis using assms(1) by (simp add: broadcast_def)
qed

theorem uncorrelated_error_throws_witness:
  "error stray = Some \<lparr>code = - 1, message = ''boom'', data = None\<rparr>
   \<and> msg_id stray = None
   \<and> onmessage stray (fst awaiting) (snd awaiting)
       = (Threw (Error ''boom''), fst awaiting, snd awaiting)"
proof -
  have 1: "error stray = Some \<lparr>code = - 1, message = ''boom'', data = None\<rparr>"
    and 3: "msg_id stray = None" by (simp_all add: stray_def)
  have 2: "\<And>n. msg_id stray = Some n \<Longrightarrow> messageRequests (fst awaiting) n = None"
    by (simp add: stray_def)
  from uncorrelated_error_throws [OF 1 2, of "snd awaiting"] 1 3 show ?thesis by simp
qed

lemma notify_heap:
  "heap (snd (snd (notify m c w))) = (heap w)(m := (heap w m)\<lparr>req_jsonrpc := Some ''2.0''\<rparr>)"
  by (simp add: notify_def Let_def split: option.split)

lemma rpc_heap:
  "heap (snd (snd (rpc m c w))) =
     (heap w)(m := (heap w m)\<lparr>req_id := Some (increment (messageId c)),
                              req_jsonrpc := Some ''2.0''\<rparr>)"
  by (simp add: rpc_def notify_def Let_def split: option.split)

lemma rpc_queued:
  "\<not> connected c \<Longrightarrow> queue (fst (snd (rpc m c w))) = queue c @ [m]"
  by (simp add: rpc_def notify_def Let_def)

lemma rpc_sent:
  "connected c \<Longrightarrow> websocket c = Some s \<Longrightarrow>
   effects (snd (snd (rpc m c w))) = effects w @ [WsSend s (heap (snd (snd (rpc m c w))) m)]"
  by (simp add: rpc_def notify_def Let_def)

text \<open>
  Claim C10. \<open>notify\<close> writes \<open>"2.0"\<close> to the field \<open>jsonrpc\<close> of the object it is handed,
  and \<open>rpc\<close> writes the new identifier, the next value of the counter, to its field
  \<open>id\<close> as well; no other object
  and no other field changes. When the client is not connected the queue receives the
  reference of that very object, and when it is connected the frame sent is the state of
  that object after the writes.
\<close>

theorem requests_mutated_in_place:
  "heap (snd (snd (notify m c w))) = (heap w)(m := (heap w m)\<lparr>req_jsonrpc := Some ''2.0''\<rparr>)
   \<and> heap (snd (snd (rpc m c w))) =
       (heap w)(m := (heap w m)\<lparr>req_id := Some (increment (messageId c)),
                                req_jsonrpc := Some ''2.0''\<rparr>)
   \<and> (\<not> connected c \<longrightarrow>
         queue (fst (snd (notify m c w))) = queue c @ [m]
         \<and> queue (fst (snd (rpc m c w))) = queue c @ [m])
   \<and> (connected c \<longrightarrow> websocket c = Some s \<longrightarrow>
         effects (snd (snd (notify m c w)))
           = effects w @ [WsSend s (heap (snd (snd (notify m c w))) m)]
         \<and> effects (snd (snd (rpc m c w)))
           = effects w @ [WsSend s (heap (snd (snd (rpc m c w))) m)])"
proof (intro conjI impI)
  show "heap (snd (snd (notify m c w))) = (heap w)(m := (heap w m)\<lparr>req_jsonrpc := Some ''2.0''\<rparr>)"
    by (rule notify_heap)
  show "heap (snd (snd (rpc m c w))) =
       (heap w)(m := (heap w m)\<lparr>req_id := Some (increment (messageId c)),
                                req_jsonrpc := Some ''2.0''\<rparr>)"
    by (rule rpc_heap)
  show "queue (fst (snd (notify m c w))) = queue c @ [m]" if "\<not> connected c"
    using that by (simp add: notify_disconnected)
  show "queue (fst (snd (rpc m c w))) = queue c @ [m]" if "\<not> connected c"
    using that by (rule rpc_queued)
  show "effects (snd (snd (notify m c w)))
           = effects w @ [WsSend s (heap (snd (snd (notify m c w))) m)]"
    if "connected c" "websocket c = Some s"
    using that by (simp add: notify_connected stamp_def)
  show "effects (snd (snd (rpc m c w)))
           = effects w @ [WsSend s (heap (snd (snd (rpc m c w))) m)]"
    if "connected c" "websocket c = Some s"
    using that by (rule rpc_sent)
qed

theorem requests_mutated_in_place_witness:
  "\<not> connected constructor
   \<and> heap (snd (snd (rpc 2 constructor world0))) 2
       = \<lparr>req_jsonrpc = Some ''2.0'', req_id = Some 1, req_method = [], params = None\<rparr>
   \<and> queue (fst (snd (rpc 2 constructor world0))) = [2]
   \<and> effects (snd (snd (notify 2 (constructor\<lparr>websocket := Some 0, connected := True\<rparr>) world0)))
       = [WsSend 0 \<lparr>req_jsonrpc = Some ''2.0'', req_id = None, req_method = [], params = None\<rparr>]"
proof -
  note T = requests_mutated_in_place [of 2 constructor world0]
  note U = requests_mutated_in_place
    [of 2 "constructor\<lparr>websocket := Some 0, connected := True\<rparr>" world0 0]
  have a: "\<not> connected constructor" by (simp add: constructor_def)
  have b: "heap (snd (snd (rpc 2 constructor world0))) 2
       = \<lparr>req_jsonrpc = Some ''2.0'', req_id = Some 1, req_method = [], params = None\<rparr>"
    using T [THEN conjunct2, THEN conjunct1]
    by (simp add: constructor_def world0_def blank_def increment_def saturation_def)
  have c: "queue (fst (snd (rpc 2 constructor world0))) = [2]"
    using T [THEN conjunct2, THEN conjunct2, THEN conjunct1] a
    by (simp add: constructor_def)
  have d: "effects (snd (snd (notify 2 (constructor\<lparr>websocket := Some 0, connected := True\<rparr>) world0)))
       = [WsSend 0 \<lparr>req_jsonrpc = Some ''2.0'', req_id = None, req_method = [], params = None\<rparr>]"
    using U [THEN conjunct2, THEN conjunct2, THEN conjunct2] U [THEN conjunct1]
    by (simp add: world0_def blank_def)
  from a b c d show ?thesis by blast
qed

lemma drained_step:
  assumes "drained c" "step x (c, w) = Some (c', w')"
  shows "drained c'"
proof (cases x)
  case (Connect url)
  with assms show ?thesis by (auto simp: drained_def connect_def Let_def)
next
  case (Notify m)
  with assms show ?thesis
    by (auto simp: drained_def notify_def Let_def split: option.splits if_splits)
next
  case (Rpc m)
  with assms show ?thesis
    by (auto simp: drained_def rpc_def notify_def Let_def split: option.splits if_splits)
next
  case (Writes m r)
  with assms show ?thesis by auto
next
  case Opened
  with assms show ?thesis
    by (cases "websocket c") (auto simp: drained_def onopen_socket)
next
  case Closed
  with assms show ?thesis
    by (cases "websocket c") (auto simp: drained_def onclose_def)
next
  case (Received msg)
  show ?thesis
  proof (cases "websocket c")
    case None
    with assms Received show ?thesis by auto
  next
    case (Some s)
    with assms Received have e: "snd (onmessage msg c w) = (c', w')" by simp
    have "connected c' = connected c \<and> queue c' = queue c"
    proof (cases rule: onmessage_cases [of msg c w])
      case (matched n q)
      with e show ?thesis by auto
    next
      case unmatched
      with e show ?thesis
        by (cases "broadcast msg c w") (auto dest: broadcast_frame)
    qed
    with assms(1) show ?thesis by (simp add: drained_def)
  qed
qed

lemma drained_run:
  "drained c \<Longrightarrow> run xs (c, w) = Some (c', w') \<Longrightarrow> drained c'"
proof (induction xs arbitrary: c w)
  case Nil
  then show ?case by simp
next
  case (Cons x xs)
  from Cons.prems(2) obtain c1 w1 where
    s: "step x (c, w) = Some (c1, w1)" and r: "run xs (c1, w1) = Some (c', w')"
    by (rule run_ConsE)
  from Cons.IH [OF drained_step [OF Cons.prems(1) s] r] show ?case .
qed

text \<open>
  Claim C7. A new client satisfies the queue invariant; every event, be it a call of
  \<open>connect\<close>, \<open>notify\<close> or \<open>rpc\<close> or one of the hooks \<open>onopen\<close>, \<open>onclose\<close> and \<open>onmessage\<close>,
  returns and takes a state that satisfies it to one that does; so every history ends
  in a state where the client is not connected or its queue is empty. The loop of
  \<open>onopen\<close> runs inside one event: the states in the middle of it are not states between
  events.
\<close>

theorem queue_empty_while_connected:
  "drained constructor
   \<and> (drained c \<longrightarrow> (\<exists>c' w'. step x (c, w) = Some (c', w') \<and> drained c'))
   \<and> (\<exists>c' w'. run ops (constructor, w0) = Some (c', w') \<and> drained c')"
proof (intro conjI impI)
  show d0: "drained constructor" by (simp add: drained_def constructor_def)
  show "\<exists>c' w'. step x (c, w) = Some (c', w') \<and> drained c'" if "drained c"
  proof -
    obtain c' w' where s: "step x (c, w) = Some (c', w')"
      using step_total [of x "(c, w)"] by auto
    with drained_step [OF that s] show ?thesis by blast
  qed
  obtain c' w' where r: "run ops (constructor, w0) = Some (c', w')"
    using run_total [of ops "(constructor, w0)"] by auto
  with drained_run [OF d0 r] show "\<exists>c' w'. run ops (constructor, w0) = Some (c', w') \<and> drained c'"
    by blast
qed

theorem queue_empty_while_connected_witness:
  "\<exists>c w. run [Notify 0, Connect ''ws://host'', Opened, Notify 1] (constructor, world0)
            = Some (c, w)
         \<and> connected c \<and> queue c = []"
proof -
  from queue_empty_while_connected
    [of _ _ _ "[Notify 0, Connect ''ws://host'', Opened, Notify 1]" world0]
  obtain c w where
    r: "run [Notify 0, Connect ''ws://host'', Opened, Notify 1] (constructor, world0)
          = Some (c, w)" and d: "drained c" by blast
  have "connected c"
    using r by (auto simp: notify_def connect_def onopen_socket constructor_def world0_def Let_def)
  with d have "queue c = []" by (simp add: drained_def)
  with r \<open>connected c\<close> show ?thesis by blast
qed



text \<open>In every history of a new client the counter is one of the values 0 to \<open>2 ^ 53\<close>.\<close>

lemma step_messageId_range:
  assumes "step x (c, w) = Some (c', w')" "0 \<le> messageId c" "messageId c \<le> saturation"
  shows "0 \<le> messageId c' \<and> messageId c' \<le> saturation"
proof -
  consider (rpc) m where "x = Rpc m" | (received) msg where "x = Received msg"
    | (other) "\<And>m. x \<noteq> Rpc m" "\<And>msg. x \<noteq> Received msg"
    by (cases x) auto
  then show ?thesis
  proof cases
    case (rpc m)
    from step_rpc [OF assms(1) [unfolded rpc], of 0] assms(2,3)
    show ?thesis by (simp add: increment_def)
  next
    case (received msg)
    show ?thesis
      by (rule step_received [OF assms(1) [unfolded received]]) (simp_all add: assms(2,3))
  next
    case other
    from step_other [OF assms(1) other, of 0] assms(2,3) show ?thesis by simp
  qed
qed

lemma messageId_range:
  "run xs (constructor, w0) = Some (c, w) \<Longrightarrow> 0 \<le> messageId c \<and> messageId c \<le> saturation"
proof -
  have "run xs (c0, v0) = Some (c, w) \<Longrightarrow> 0 \<le> messageId c0 \<Longrightarrow> messageId c0 \<le> saturation
        \<Longrightarrow> 0 \<le> messageId c \<and> messageId c \<le> saturation" for c0 v0
  proof (induction xs arbitrary: c0 v0)
    case Nil
    then show ?case by simp
  next
    case (Cons x xs)
    from Cons.prems(1) obtain c1 w1 where
      s: "step x (c0, v0) = Some (c1, w1)" and r: "run xs (c1, w1) = Some (c, w)"
      by (rule run_ConsE)
    from step_messageId_range [OF s Cons.prems(2,3)] Cons.IH [OF r] show ?case by simp
  qed
  moreover have "0 \<le> messageId constructor" "messageId constructor \<le> saturation"
    by (simp_all add: constructor_def saturation_def)
  ultimately show "run xs (constructor, w0) = Some (c, w)
      \<Longrightarrow> 0 \<le> messageId c \<and> messageId c \<le> saturation"
    by blast
qed




text \<open>
  Claim C9. \<open>connect\<close> leaves the table of pending requests as it is, and settles no
  promise: every entry pending before the call is pending after it.
\<close>

theorem connect_keeps_pending_requests:
  "messageRequests (fst (snd (connect url c w))) = messageRequests c
   \<and> (\<forall>p. settled p (snd (snd (connect url c w))) = settled p w)"
  by (cases "connect url c w") (auto dest: connect_frame)

end
